theory Spec2Isabelle
  imports Main
begin

section \<open>The terminal user interface of the chat client (src/src/UserInterface.js)\<close>

text \<open>
  The class \<open>UserInterface\<close> keeps a log of message records, a roster of user names, an
  optional update notice and a scroll state. Its methods are embedded as functions that
  take the state and return the updated state. The terminal (\<open>term\<close>) is a global of
  the program: the one value the embedded methods read from it, \<open>term.height\<close>, is
  passed as the first argument. \<open>render()\<close> only writes to the terminal and changes
  no field, so a call of it leaves the state as it is.
\<close>

subsection \<open>Data\<close>

text \<open>
  A JavaScript string is a sequence of code units; it is modelled as a \<open>string\<close>, one
  \<open>char\<close> per code unit. The \<open>type\<close> field of a message is one of five strings;
  \<open>Other\<close> stands for any other value (the \<open>default\<close> branch of the renderer).
\<close>

datatype mtype = Chat | System | Error | Info | Pending | Other

record message =
  msg_type :: mtype
  msg_name :: "string option"
  msg_text :: string
  msg_timestamp :: string
  msg_id :: "int option"

datatype view_mode = Normal | Scrolling

text \<open>
  \<open>users\<close> is a JavaScript \<open>Set\<close>: it iterates in insertion order and holds no
  duplicates, so it is a list that \<open>addUser\<close> keeps distinct.
\<close>

record ui =
  messages :: "message list"
  users :: "string list"
  updateStatus :: "string option"
  viewMode :: view_mode
  scrollPosition :: int

definition maxMessages :: nat where
  "maxMessages = 500"

definition init_ui :: ui where
  "init_ui = \<lparr>messages = [], users = [], updateStatus = None,
              viewMode = Normal, scrollPosition = 0\<rparr>"

subsection \<open>Visible capacity\<close>

text \<open>
  \<open>getVisibleMessageCount\<close> divides by 1.2 or 1.5 in floating point and takes the floor.
  For the heights below 10 the quotient \<open>m / 1.2\<close> has the floor of \<open>5 m / 6\<close>, and
  \<open>m / 1.5\<close> has the floor of \<open>2 m / 3\<close>, which is what the integer divisions compute.
  \<open>updateStatus\<close> is tested for truthiness: \<open>null\<close> and the empty string count as
  absent.
\<close>

definition truthy :: "string option \<Rightarrow> bool" where
  "truthy u = (case u of None \<Rightarrow> False | Some x \<Rightarrow> x \<noteq> [])"

definition getVisibleMessageCount :: "int \<Rightarrow> ui \<Rightarrow> int" where
  "getVisibleMessageCount height s =
     (let headerHeight = (if truthy (updateStatus s) then 4 else 3);
          inputHeight = 3;
          contentHeight = height - headerHeight - inputHeight;
          messageDisplayHeight = contentHeight - 2
      in if messageDisplayHeight < 1 then 1
         else max 1 (if messageDisplayHeight < 10
                     then (messageDisplayHeight * 5) div 6
                     else (messageDisplayHeight * 2) div 3))"

definition maxScroll :: "int \<Rightarrow> ui \<Rightarrow> int" where
  "maxScroll height s = max 0 (int (length (messages s)) - getVisibleMessageCount height s)"

subsection \<open>Scroll operations\<close>

definition scrollUp :: "int \<Rightarrow> ui \<Rightarrow> ui" where
  "scrollUp height s =
     (if scrollPosition s < maxScroll height s
      then s\<lparr>scrollPosition := scrollPosition s + 1, viewMode := Scrolling\<rparr>
      else s)"

definition scrollDown :: "ui \<Rightarrow> ui" where
  "scrollDown s =
     (if scrollPosition s > 0
      then (let s1 = s\<lparr>scrollPosition := scrollPosition s - 1\<rparr>
            in if scrollPosition s1 = 0 then s1\<lparr>viewMode := Normal\<rparr> else s1)
      else s)"

definition scrollPageUp :: "int \<Rightarrow> ui \<Rightarrow> ui" where
  "scrollPageUp height s =
     (let pageSize = max 1 (getVisibleMessageCount height s - 1)
      in s\<lparr>scrollPosition := min (maxScroll height s) (scrollPosition s + pageSize),
            viewMode := Scrolling\<rparr>)"

definition scrollPageDown :: "int \<Rightarrow> ui \<Rightarrow> ui" where
  "scrollPageDown height s =
     (let pageSize = max 1 (getVisibleMessageCount height s - 1);
          s1 = s\<lparr>scrollPosition := max 0 (scrollPosition s - pageSize)\<rparr>
      in if scrollPosition s1 = 0 then s1\<lparr>viewMode := Normal\<rparr> else s1)"

definition scrollToTop :: "int \<Rightarrow> ui \<Rightarrow> ui" where
  "scrollToTop height s = s\<lparr>scrollPosition := maxScroll height s, viewMode := Scrolling\<rparr>"

definition scrollToBottom :: "ui \<Rightarrow> ui" where
  "scrollToBottom s = s\<lparr>scrollPosition := 0, viewMode := Normal\<rparr>"

text \<open>The resize handler of \<open>setupTerminal\<close> and its helper.\<close>

definition adjustScrollPositionForResize :: "int \<Rightarrow> ui \<Rightarrow> ui" where
  "adjustScrollPositionForResize height s =
     (let s1 = s\<lparr>scrollPosition := min (scrollPosition s) (maxScroll height s)\<rparr>
      in if scrollPosition s1 = 0 then s1\<lparr>viewMode := Normal\<rparr> else s1)"

definition on_resize :: "int \<Rightarrow> ui \<Rightarrow> ui" where
  "on_resize height s =
     (if viewMode s = Normal then scrollToBottom s
      else adjustScrollPositionForResize height s)"

text \<open>The scrolling keys of \<open>setupKeyboardHandling\<close>, and a sequence of key presses.\<close>

datatype key = UP | DOWN | PAGE_UP | PAGE_DOWN | HOME | END

fun on_key :: "int \<Rightarrow> key \<Rightarrow> ui \<Rightarrow> ui" where
  "on_key height UP s = scrollUp height s"
| "on_key height DOWN s = scrollDown s"
| "on_key height PAGE_UP s = scrollPageUp height s"
| "on_key height PAGE_DOWN s = scrollPageDown height s"
| "on_key height HOME s = scrollToTop height s"
| "on_key height END s = scrollToBottom s"

text \<open>\<open>states_after height ks s\<close> lists the state after each call, in order.\<close>

fun states_after :: "int \<Rightarrow> key list \<Rightarrow> ui \<Rightarrow> ui list" where
  "states_after height [] s = []"
| "states_after height (k # ks) s =
     on_key height k s # states_after height ks (on_key height k s)"

subsection \<open>Other mutators of the scroll-relevant state\<close>

definition setUpdateStatus :: "string option \<Rightarrow> ui \<Rightarrow> ui" where
  "setUpdateStatus u s = s\<lparr>updateStatus := u\<rparr>"

definition addUser :: "string \<Rightarrow> ui \<Rightarrow> ui" where
  "addUser username s =
     (if username \<in> set (users s) then s else s\<lparr>users := users s @ [username]\<rparr>)"

definition removeUser :: "string \<Rightarrow> ui \<Rightarrow> ui" where
  "removeUser username s = s\<lparr>users := filter (\<lambda>u. u \<noteq> username) (users s)\<rparr>"

text \<open>
  \<open>trimMessages\<close>: \<open>slice(-maxMessages)\<close> keeps the last \<open>maxMessages\<close> records.
\<close>

definition trimMessages :: "ui \<Rightarrow> ui" where
  "trimMessages s =
     (if length (messages s) > maxMessages
      then (let removed = length (messages s) - maxMessages;
                s1 = s\<lparr>messages := drop removed (messages s)\<rparr>
            in if scrollPosition s1 > 0
               then (let s2 = s1\<lparr>scrollPosition := max 0 (scrollPosition s1 - int removed)\<rparr>
                     in if scrollPosition s2 = 0 then s2\<lparr>viewMode := Normal\<rparr> else s2)
               else s1)
      else s)"

text \<open>
  The methods that add a record read the clock: \<open>now\<close> is \<open>Date.now()\<close> at the call
  and \<open>fmt\<close> is \<open>toLocaleTimeString\<close> of the date of an instant.
\<close>

definition push :: "message \<Rightarrow> ui \<Rightarrow> ui" where
  "push m s = s\<lparr>messages := messages s @ [m]\<rparr>"

definition addSystemMessage :: "(int \<Rightarrow> string) \<Rightarrow> int \<Rightarrow> string \<Rightarrow> ui \<Rightarrow> ui" where
  "addSystemMessage fmt now txt s =
     trimMessages (push \<lparr>msg_type = System, msg_name = None, msg_text = txt,
                          msg_timestamp = fmt now, msg_id = None\<rparr> s)"

definition addErrorMessage :: "(int \<Rightarrow> string) \<Rightarrow> int \<Rightarrow> string \<Rightarrow> ui \<Rightarrow> ui" where
  "addErrorMessage fmt now txt s =
     trimMessages (push \<lparr>msg_type = Error, msg_name = None, msg_text = txt,
                          msg_timestamp = fmt now, msg_id = None\<rparr> s)"

definition addInfoMessage :: "(int \<Rightarrow> string) \<Rightarrow> int \<Rightarrow> string \<Rightarrow> ui \<Rightarrow> ui" where
  "addInfoMessage fmt now txt s =
     trimMessages (push \<lparr>msg_type = Info, msg_name = None, msg_text = txt,
                          msg_timestamp = fmt now, msg_id = None\<rparr> s)"

definition addPendingMessage :: "(int \<Rightarrow> string) \<Rightarrow> int \<Rightarrow> string \<Rightarrow> ui \<Rightarrow> ui" where
  "addPendingMessage fmt now txt s =
     scrollToBottom
       (trimMessages (push \<lparr>msg_type = Pending, msg_name = Some ''You'', msg_text = txt,
                             msg_timestamp = fmt now, msg_id = Some now\<rparr> s))"

text \<open>
  \<open>addChatMessage\<close>: the loop runs \<open>i\<close> from the last index down to 0 and stops at the
  first pending record with the confirmed text; \<open>search_back ms txt n\<close> is the loop with
  \<open>n\<close> indices left, and its result is \<open>pendingIndex\<close> (\<open>-1\<close> when the loop ends
  without a match). \<open>timestamp\<close> is the instant the server sent, tested for truthiness
  (absent and 0 are falsy).
\<close>

fun search_back :: "message list \<Rightarrow> string \<Rightarrow> nat \<Rightarrow> int" where
  "search_back ms txt 0 = - 1"
| "search_back ms txt (Suc i) =
     (if msg_type (ms ! i) = Pending \<and> msg_text (ms ! i) = txt then int i
      else search_back ms txt i)"

definition time_label :: "(int \<Rightarrow> string) \<Rightarrow> int \<Rightarrow> int option \<Rightarrow> string" where
  "time_label fmt now timestamp =
     (case timestamp of
        None \<Rightarrow> fmt now
      | Some t \<Rightarrow> if t \<noteq> 0 then fmt t else fmt now)"

definition chat_record :: "string \<Rightarrow> string \<Rightarrow> string \<Rightarrow> message" where
  "chat_record nm txt time =
     \<lparr>msg_type = Chat, msg_name = Some nm, msg_text = txt, msg_timestamp = time, msg_id = None\<rparr>"

definition addChatMessage ::
  "(int \<Rightarrow> string) \<Rightarrow> int \<Rightarrow> string \<Rightarrow> string \<Rightarrow> int option \<Rightarrow> ui \<Rightarrow> ui" where
  "addChatMessage fmt now nm txt timestamp s =
     (let pendingIndex = search_back (messages s) txt (length (messages s));
          time = time_label fmt now timestamp
      in trimMessages
           (if pendingIndex \<noteq> - 1
            then s\<lparr>messages := (messages s)[nat pendingIndex := chat_record nm txt time]\<rparr>
            else push (chat_record nm txt time) s))"

subsection \<open>Mention autocomplete\<close>

text \<open>
  \<open>toLowerCase\<close> is modelled on the 26 capital letters of ASCII; every other code unit
  is left as it is. \<open>lastIndexOf\<close> searches from the last index down and gives \<open>-1\<close>
  when the character does not occur. \<open>slice(0, i)\<close> is \<open>take\<close>, \<open>slice(i)\<close> is
  \<open>drop\<close>.
\<close>

definition lower_char :: "char \<Rightarrow> char" where
  "lower_char c =
     (case map_of (zip ''ABCDEFGHIJKLMNOPQRSTUVWXYZ'' ''abcdefghijklmnopqrstuvwxyz'') c of
        None \<Rightarrow> c
      | Some d \<Rightarrow> d)"

definition toLowerCase :: "string \<Rightarrow> string" where
  "toLowerCase str = map lower_char str"

definition startsWith :: "string \<Rightarrow> string \<Rightarrow> bool" where
  "startsWith str p = (take (length p) str = p)"

fun last_from :: "string \<Rightarrow> char \<Rightarrow> nat \<Rightarrow> int" where
  "last_from str c 0 = - 1"
| "last_from str c (Suc i) = (if str ! i = c then int i else last_from str c i)"

definition lastIndexOf :: "string \<Rightarrow> char \<Rightarrow> int" where
  "lastIndexOf str c = last_from str c (length str)"

definition handleAutoComplete :: "ui \<Rightarrow> string \<Rightarrow> string list" where
  "handleAutoComplete s input =
     (if input = [] then []
      else (let lastAtIndex = lastIndexOf input (CHR ''@'')
            in if lastAtIndex = - 1 then []
               else (let searchTerm = toLowerCase (drop (nat (lastAtIndex + 1)) input);
                         usersList = users s
                     in map (\<lambda>user. take (nat (lastAtIndex + 1)) input @ user)
                          (filter (\<lambda>user. startsWith (toLowerCase user) searchTerm) usersList))))"

subsection \<open>Line wrapper\<close>

text \<open>
  \<open>stripAnsiCodes\<close> removes every match of the regular expression
  \<open>ESC [ [0-9;]* m\<close>, scanning from the left: \<open>after_code str\<close> is the rest of
  \<open>str\<close> after a match at its start, if there is one (the run of parameter characters is
  the longest one, and the match fails when no \<open>m\<close> follows it).
\<close>

definition ESC :: char where
  "ESC = CHR 0x1B"

definition is_param :: "char \<Rightarrow> bool" where
  "is_param c = (c \<in> set ''0123456789;'')"

definition after_code :: "string \<Rightarrow> string option" where
  "after_code str =
     (case str of
        e # b # r \<Rightarrow>
          if e = ESC \<and> b = CHR ''[''
          then (case dropWhile is_param r of
                  m # r' \<Rightarrow> if m = CHR ''m'' then Some r' else None
                | [] \<Rightarrow> None)
          else None
      | _ \<Rightarrow> None)"

lemma after_code_shorter: "after_code str = Some r \<Longrightarrow> length r < length str"
proof -
  assume a: "after_code str = Some r"
  then obtain e b t where s: "str = e # b # t"
    by (auto simp add: after_code_def split: list.splits)
  with a have "\<exists>m. dropWhile is_param t = m # r"
    by (auto simp add: after_code_def split: list.splits if_splits)
  then obtain m where "dropWhile is_param t = m # r" ..
  then have "length (m # r) \<le> length t"
    using length_dropWhile_le [of is_param t] by simp
  with s show ?thesis by simp
qed

function stripAnsiCodes :: "string \<Rightarrow> string" where
  "stripAnsiCodes [] = []"
| "stripAnsiCodes (c # cs) =
     (case after_code (c # cs) of
        Some r \<Rightarrow> stripAnsiCodes r
      | None \<Rightarrow> c # stripAnsiCodes cs)"
  by pat_completeness auto
termination
  by (relation "measure length") (auto dest: after_code_shorter)

text \<open>
  \<^emph>\<open>chalk\<close> is a library the program imports. Its colour level is a setting of the
  terminal the program runs in, so it is the first argument of every function that
  styles a string: at level 0 a style returns the string as it is; at the levels 1 to 3
  it returns the SGR codes that open the style, the string, and the codes that close it,
  and the empty string for the empty string. That is what chalk returns for a string
  without escape or newline characters; within a string that has them chalk also repeats
  codes, which changes the styled string and not its unstyled text.
  \<open>chalk.green.bold\<close> opens green then bold and closes bold then green.
\<close>

definition style :: "nat \<Rightarrow> string \<Rightarrow> string \<Rightarrow> string \<Rightarrow> string" where
  "style level opn cls str = (if level = 0 \<or> str = [] then str else opn @ str @ cls)"

definition sgr :: "string \<Rightarrow> string" where
  "sgr n = ESC # CHR ''['' # n @ ''m''"

definition chalk_gray :: "nat \<Rightarrow> string \<Rightarrow> string" where
  "chalk_gray level = style level (sgr ''90'') (sgr ''39'')"

definition chalk_red :: "nat \<Rightarrow> string \<Rightarrow> string" where
  "chalk_red level = style level (sgr ''31'') (sgr ''39'')"

definition chalk_cyan :: "nat \<Rightarrow> string \<Rightarrow> string" where
  "chalk_cyan level = style level (sgr ''36'') (sgr ''39'')"

definition chalk_green_bold :: "nat \<Rightarrow> string \<Rightarrow> string" where
  "chalk_green_bold level = style level (sgr ''32'' @ sgr ''1'') (sgr ''22'' @ sgr ''39'')"

definition chalk_yellow_bold :: "nat \<Rightarrow> string \<Rightarrow> string" where
  "chalk_yellow_bold level = style level (sgr ''33'' @ sgr ''1'') (sgr ''22'' @ sgr ''39'')"

text \<open>
  \<open>split_on\<close> is \<open>String.split\<close> with a separator of one character; \<open>trim\<close> removes
  white space (the code units 9 to 13, 32 and 160) from both ends; \<open>endsWith_space\<close> is
  \<open>endsWith(' ')\<close>.
\<close>

fun split_on :: "char \<Rightarrow> string \<Rightarrow> string list" where
  "split_on sep [] = [[]]"
| "split_on sep (c # cs) =
     (if c = sep then [] # split_on sep cs
      else (case split_on sep cs of
              w # ws \<Rightarrow> (c # w) # ws
            | [] \<Rightarrow> [[c]]))"

definition is_ws :: "char \<Rightarrow> bool" where
  "is_ws c = (c \<in> set [CHR 0x09, CHR 0x0A, CHR 0x0B, CHR 0x0C, CHR 0x0D, CHR 0x20, CHR 0xA0])"

definition trim :: "string \<Rightarrow> string" where
  "trim str = rev (dropWhile is_ws (rev (dropWhile is_ws str)))"

definition endsWith_space :: "string \<Rightarrow> bool" where
  "endsWith_space str = (str \<noteq> [] \<and> last str = CHR '' '')"

text \<open>
  \<open>formatMessageToLines\<close>. A record without a name renders the absent name as
  \<open>undefined\<close>, as the template string does. \<open>bracketed msg\<close> is the local
  \<open>timestamp\<close>, \<open>content\<close> and \<open>fullMessage\<close> are the locals of these names. The state
  of the loop over the words is \<open>(lines, currentLine, currentPlainLine)\<close>; \<open>flush\<close> is
  the statement that pushes \<open>currentLine\<close> unless its trimmed text is the styled
  timestamp alone (it stands in the loop and after it), and \<open>wrap_word\<close> is the body of
  the loop.
\<close>

definition name_text :: "message \<Rightarrow> string" where
  "name_text msg = (case msg_name msg of Some n \<Rightarrow> n | None \<Rightarrow> ''undefined'')"

definition content :: "nat \<Rightarrow> message \<Rightarrow> string" where
  "content level msg =
     (case msg_type msg of
        Chat \<Rightarrow> chalk_green_bold level (name_text msg) @ '': '' @ msg_text msg
      | System \<Rightarrow> chalk_gray level (msg_text msg)
      | Error \<Rightarrow> chalk_red level (msg_text msg)
      | Info \<Rightarrow> chalk_cyan level (msg_text msg)
      | Pending \<Rightarrow> chalk_yellow_bold level (name_text msg) @ '': '' @ chalk_gray level (msg_text msg)
                     @ '' '' @ chalk_gray level ''(sending...)''
      | Other \<Rightarrow> msg_text msg)"

definition bracketed :: "message \<Rightarrow> string" where
  "bracketed msg = ''['' @ msg_timestamp msg @ '']''"

definition fullMessage :: "nat \<Rightarrow> message \<Rightarrow> string" where
  "fullMessage level msg = chalk_gray level (bracketed msg) @ '' '' @ content level msg"

type_synonym wrap_state = "string list \<times> string \<times> string"

definition flush :: "nat \<Rightarrow> string \<Rightarrow> wrap_state \<Rightarrow> string list" where
  "flush level timestamp st =
     (case st of (lines, currentLine, currentPlainLine) \<Rightarrow>
        if trim currentLine \<noteq> chalk_gray level timestamp then lines @ [currentLine] else lines)"

definition wrap_word :: "nat \<Rightarrow> string \<Rightarrow> int \<Rightarrow> wrap_state \<Rightarrow> string \<Rightarrow> wrap_state" where
  "wrap_word level timestamp maxWidth st word =
     (case st of (lines, currentLine, currentPlainLine) \<Rightarrow>
        let plainWord = stripAnsiCodes word;
            testLine = currentPlainLine
                         @ (if endsWith_space currentPlainLine then [] else '' '') @ plainWord
        in if int (length testLine) \<le> maxWidth
           then (if currentLine = chalk_gray level timestamp @ '' ''
                 then (lines, currentLine @ word, currentPlainLine @ plainWord)
                 else (lines, currentLine @ '' '' @ word, currentPlainLine @ '' '' @ plainWord))
           else (let indent = replicate (length timestamp + 2) (CHR '' '')
                 in (flush level timestamp st, chalk_gray level indent @ word, indent @ plainWord)))"

fun wrap_loop :: "nat \<Rightarrow> string \<Rightarrow> int \<Rightarrow> string list \<Rightarrow> wrap_state \<Rightarrow> wrap_state" where
  "wrap_loop level timestamp maxWidth [] st = st"
| "wrap_loop level timestamp maxWidth (word # words) st =
     wrap_loop level timestamp maxWidth words (wrap_word level timestamp maxWidth st word)"

definition formatMessageToLines :: "nat \<Rightarrow> message \<Rightarrow> int \<Rightarrow> string list" where
  "formatMessageToLines level msg maxWidth =
     (let timestamp = bracketed msg;
          plainText = stripAnsiCodes (fullMessage level msg)
      in if int (length plainText) \<le> maxWidth then [fullMessage level msg]
         else (let words = split_on (CHR '' '') (content level msg);
                   lines = flush level timestamp
                             (wrap_loop level timestamp maxWidth words
                                ([], chalk_gray level timestamp @ '' '', timestamp @ '' ''))
               in if lines \<noteq> [] then lines else [fullMessage level msg]))"

section \<open>Stated properties and example states\<close>

text \<open>The scroll bounds: \<open>0 \<le> scrollPosition \<le> maxScroll\<close>.\<close>

definition scroll_bounds :: "int \<Rightarrow> ui \<Rightarrow> bool" where
  "scroll_bounds height s = (0 \<le> scrollPosition s \<and> scrollPosition s \<le> maxScroll height s)"

text \<open>A clock that shows one time label, and a log of ten system messages.\<close>

definition wall_clock :: "int \<Rightarrow> string" where
  "wall_clock t = ''10:00:00''"

definition ten_joined :: ui where
  "ten_joined = (addSystemMessage wall_clock 0 ''joined'' ^^ 10) init_ui"

text \<open>The test of the search loop of \<open>addChatMessage\<close>, named.\<close>

definition matches :: "string \<Rightarrow> message \<Rightarrow> bool" where
  "matches txt m = (msg_type m = Pending \<and> msg_text m = txt)"

text \<open>Example records and logs.\<close>

definition system_record :: "string \<Rightarrow> string \<Rightarrow> message" where
  "system_record txt time =
     \<lparr>msg_type = System, msg_name = None, msg_text = txt, msg_timestamp = time, msg_id = None\<rparr>"

definition pending_record :: "string \<Rightarrow> string \<Rightarrow> int \<Rightarrow> message" where
  "pending_record txt time i =
     \<lparr>msg_type = Pending, msg_name = Some ''You'', msg_text = txt, msg_timestamp = time,
      msg_id = Some i\<rparr>"

definition full_log :: ui where
  "full_log = init_ui\<lparr>messages := replicate 500 (system_record ''joined'' ''10:00:00'')\<rparr>"

definition hi_sent :: ui where
  "hi_sent = addPendingMessage wall_clock 7 ''hi'' init_ui"

definition hi_hi :: "message list" where
  "hi_hi = [system_record ''joined'' ''10:00:00'', pending_record ''hi'' ''10:00:01'' 1,
            pending_record ''hi'' ''10:00:02'' 2, pending_record ''ho'' ''10:00:03'' 3]"

definition full_log_scrolled :: ui where
  "full_log_scrolled = full_log\<lparr>scrollPosition := 1, viewMode := Scrolling\<rparr>"

definition roster4 :: ui where
  "roster4 = addUser ''Rob'' (addUser ''bobby'' (addUser ''alice'' (addUser ''Bob'' init_ui)))"

text \<open>
  The unstyled text of wrapped lines, put together again: \<open>unprefix n\<close> removes from an
  unstyled line the timestamp bracket of length \<open>n\<close> and its space (a first line, which
  starts with \<open>[\<close>) or the indent of \<open>n + 2\<close> spaces (a continuation line), and
  \<open>unwrap\<close> joins what is left of the lines with single spaces. \<open>visible word\<close>: the
  unstyled word has a character that is not white space. \<open>indent_of ts\<close> is the local
  \<open>indent\<close>.
\<close>

fun join_sp :: "string list \<Rightarrow> string" where
  "join_sp [] = []"
| "join_sp [w] = w"
| "join_sp (w # v # ws) = w @ '' '' @ join_sp (v # ws)"

definition unprefix :: "nat \<Rightarrow> string \<Rightarrow> string" where
  "unprefix n p = (if p \<noteq> [] \<and> hd p = CHR ''['' then drop (n + 1) p else drop (n + 2) p)"

definition unwrap :: "string \<Rightarrow> string list \<Rightarrow> string" where
  "unwrap ts ls = join_sp (map (\<lambda>l. unprefix (length ts) (stripAnsiCodes l)) ls)"

definition visible :: "string \<Rightarrow> bool" where
  "visible word = list_ex (\<lambda>c. \<not> is_ws c) (stripAnsiCodes word)"

definition indent_of :: "string \<Rightarrow> string" where
  "indent_of ts = replicate (length ts + 2) (CHR '' '')"

text \<open>
  The bound on line lengths as C6 states it: a line fits, or its unstyled text is a single
  word that is itself longer than the width.
\<close>

definition words_of :: "string \<Rightarrow> string list" where
  "words_of str = filter (\<lambda>w. w \<noteq> []) (split_on (CHR '' '') str)"

definition claimed_line_bound :: "int \<Rightarrow> string \<Rightarrow> bool" where
  "claimed_line_bound maxWidth l =
     (int (length (stripAnsiCodes l)) \<le> maxWidth \<or>
      (case words_of (stripAnsiCodes l) of
         [word] \<Rightarrow> maxWidth < int (length word)
       | _ \<Rightarrow> False))"

text \<open>Example records.\<close>

definition bob_long :: message where
  "bob_long = \<lparr>msg_type = Chat, msg_name = Some ''bob'',
     msg_text = ''hello there this is a long message that needs wrapping'',
     msg_timestamp = ''10:00:00'', msg_id = None\<rparr>"

definition two_words :: message where
  "two_words = \<lparr>msg_type = System, msg_name = None, msg_text = ''aaaaaaaaaa bbbbbbbbbb'',
     msg_timestamp = ''10:00:00'', msg_id = None\<rparr>"


definition see_label :: message where
  "see_label = \<lparr>msg_type = Chat, msg_name = Some ''bob'', msg_text = ''see [10:00:00] now'',
     msg_timestamp = ''10:00:00'', msg_id = None\<rparr>"

definition double_space :: message where
  "double_space = \<lparr>msg_type = System, msg_name = None, msg_text = ''a  b c'',
     msg_timestamp = ''10:00:00'', msg_id = None\<rparr>"

text \<open>
  For the proofs about the loop: a character that cannot stand inside a colour code after
  its first character; a line with a character that is not white space beyond the length
  of \<open>y\<close> (its trimmed text is then not \<open>y\<close>); the bound on a line as the code keeps it;
  and the invariant of the loop, \<open>seen\<close> being the words taken so far.
\<close>

definition safe :: "char \<Rightarrow> bool" where
  "safe x = (x \<noteq> CHR ''['' \<and> x \<noteq> CHR ''m'' \<and> \<not> is_param x)"

definition inked :: "string \<Rightarrow> string \<Rightarrow> bool" where
  "inked y x = (x \<noteq> [] \<and> \<not> is_ws (hd x) \<and> (\<exists>c\<in>set (drop (length y) x). \<not> is_ws c))"

definition line_ok :: "nat \<Rightarrow> string \<Rightarrow> int \<Rightarrow> string set \<Rightarrow> string \<Rightarrow> bool" where
  "line_ok level ts w W l =
     (int (length (stripAnsiCodes l)) \<le> w \<or> (\<exists>word\<in>W. l = chalk_gray level (indent_of ts) @ word))"

definition wrap_inv :: "nat \<Rightarrow> string \<Rightarrow> int \<Rightarrow> string set \<Rightarrow> string list \<Rightarrow> wrap_state \<Rightarrow> bool" where
  "wrap_inv level ts w W seen st =
     (case st of (ls, cur, plain) \<Rightarrow>
        stripAnsiCodes cur = plain \<and> (\<forall>l\<in>set ls. line_ok level ts w W l) \<and>
        (if cur = chalk_gray level ts @ '' '' then ls = [] \<and> seen = []
         else seen \<noteq> [] \<and> \<not> endsWith_space plain \<and> inked (chalk_gray level ts) cur \<and>
              (if hd plain = CHR ''['' then length ts + 1 \<le> length plain
               else length ts + 2 \<le> length plain) \<and>
              unwrap ts (ls @ [cur]) = join_sp (map stripAnsiCodes seen) \<and>
              line_ok level ts w W cur))"

section \<open>Scroll state\<close>

lemma maxScroll_nonneg: "0 \<le> maxScroll height s"
  by (simp add: maxScroll_def)

lemma getVisibleMessageCount_pos: "1 \<le> getVisibleMessageCount height s"
  by (simp add: getVisibleMessageCount_def Let_def)

lemma on_key_frame:
  "messages (on_key height k s) = messages s \<and> users (on_key height k s) = users s
   \<and> updateStatus (on_key height k s) = updateStatus s"
  by (cases k)
     (simp_all add: scrollUp_def scrollDown_def scrollPageUp_def scrollPageDown_def
        scrollToTop_def scrollToBottom_def Let_def)

lemma maxScroll_on_key: "maxScroll height (on_key height' k s) = maxScroll height s"
  by (simp add: maxScroll_def getVisibleMessageCount_def on_key_frame)

lemma on_key_bounds:
  assumes "scroll_bounds height s"
  shows "scroll_bounds height (on_key height k s)"
proof -
  have m: "maxScroll height (on_key height k s) = maxScroll height s"
    by (rule maxScroll_on_key)
  have p: "0 \<le> maxScroll height s" by (rule maxScroll_nonneg)
  have v: "1 \<le> getVisibleMessageCount height s" by (rule getVisibleMessageCount_pos)
  show ?thesis
    unfolding scroll_bounds_def m
    using assms p v
    by (cases k)
       (auto simp add: scroll_bounds_def scrollUp_def scrollDown_def scrollPageUp_def
          scrollPageDown_def scrollToTop_def scrollToBottom_def Let_def)
qed

lemma states_after_bounds:
  "scroll_bounds height s \<Longrightarrow> list_all (scroll_bounds height) (states_after height ks s)"
  by (induction ks arbitrary: s) (simp_all add: on_key_bounds)

lemma states_after_END:
  "i < length ks \<Longrightarrow> ks ! i = END \<Longrightarrow>
     scrollPosition (states_after height ks s ! i) = 0 \<and>
     viewMode (states_after height ks s ! i) = Normal"
proof (induction ks arbitrary: s i)
  case Nil
  then show ?case by simp
next
  case (Cons k ks)
  show ?case
  proof (cases i)
    case 0
    with Cons.prems show ?thesis by (simp add: scrollToBottom_def)
  next
    case (Suc j)
    with Cons.prems Cons.IH [of j "on_key height k s"] show ?thesis by simp
  qed
qed

lemma ten_joined_eval:
  "length (messages ten_joined) = 10 \<and> scrollPosition ten_joined = 0 \<and>
   viewMode ten_joined = Normal \<and> updateStatus ten_joined = None"
  unfolding ten_joined_def
  by (simp add: eval_nat_numeral addSystemMessage_def push_def trimMessages_def
        maxMessages_def init_ui_def)

lemma init_ui_bounds: "scroll_bounds height init_ui"
  by (simp add: scroll_bounds_def maxScroll_def init_ui_def)

text \<open>
  C1. The initial state is within the scroll bounds \<open>0 \<le> scrollPosition \<le> maxScroll\<close>.
  From every state within the bounds, the state after each call of a sequence of
  scrollUp, scrollDown, scrollPageUp, scrollPageDown, scrollToTop and scrollToBottom
  calls (at one terminal height) is within the bounds. After every scrollToBottom call of
  a sequence from any state whatever, \<open>scrollPosition = 0\<close> and \<open>viewMode = Normal\<close>.
\<close>

theorem scroll_keys_keep_bounds:
  "scroll_bounds height init_ui \<and>
   (scroll_bounds height s \<longrightarrow> list_all (scroll_bounds height) (states_after height ks s)) \<and>
   (\<forall>i < length ks. ks ! i = END \<longrightarrow>
      scrollPosition (states_after height ks t ! i) = 0 \<and>
      viewMode (states_after height ks t ! i) = Normal)"
  by (simp add: init_ui_bounds states_after_bounds states_after_END)

theorem scroll_keys_keep_bounds_witness:
  "scroll_bounds 18 ten_joined \<and>
   list_all (scroll_bounds 18)
     (states_after 18 [HOME, UP, PAGE_DOWN, DOWN, PAGE_UP, END] ten_joined) \<and>
   scrollPosition
     (states_after 18 [HOME, UP, PAGE_DOWN, DOWN, PAGE_UP, END]
        (ten_joined\<lparr>scrollPosition := - 7, viewMode := Scrolling\<rparr>) ! 5) = 0 \<and>
   viewMode
     (states_after 18 [HOME, UP, PAGE_DOWN, DOWN, PAGE_UP, END]
        (ten_joined\<lparr>scrollPosition := - 7, viewMode := Scrolling\<rparr>) ! 5) = Normal"
proof -
  let ?ks = "[HOME, UP, PAGE_DOWN, DOWN, PAGE_UP, END]"
  let ?t = "ten_joined\<lparr>scrollPosition := - 7, viewMode := Scrolling\<rparr>"
  have h: "scroll_bounds 18 ten_joined"
    using ten_joined_eval by (simp add: scroll_bounds_def maxScroll_def)
  note t = scroll_keys_keep_bounds [of 18 ten_joined ?ks ?t]
  have a: "list_all (scroll_bounds 18) (states_after 18 ?ks ten_joined)"
    using t [THEN conjunct2, THEN conjunct1, rule_format, OF h] .
  have b: "scrollPosition (states_after 18 ?ks ?t ! 5) = 0 \<and>
           viewMode (states_after 18 ?ks ?t ! 5) = Normal"
    using t [THEN conjunct2, THEN conjunct2, rule_format, of 5] by simp
  from h a b show ?thesis by blast
qed

text \<open>
  C2. The claim has \<open>viewMode = Scrolling\<close> only when \<open>scrollPosition > 0\<close>, and
  scrollToTop leaves the mode at \<open>Normal\<close> when \<open>maxScroll\<close> is 0. On the empty log of
  the initial state (\<open>maxScroll = 0\<close>, at any terminal height) scrollToTop and
  scrollPageUp both end with \<open>scrollPosition = 0\<close> and \<open>viewMode = Scrolling\<close>.
\<close>

theorem home_on_short_log:
  "scrollPosition (scrollToTop height init_ui) = 0 \<and>
   viewMode (scrollToTop height init_ui) = Scrolling \<and>
   scrollPosition (scrollPageUp height init_ui) = 0 \<and>
   viewMode (scrollPageUp height init_ui) = Scrolling"
  using getVisibleMessageCount_pos [of height init_ui]
  by (simp add: scrollToTop_def scrollPageUp_def maxScroll_def Let_def init_ui_def)

text \<open>
  C10. Each of scrollUp, scrollDown, scrollPageUp, scrollPageDown, scrollToTop and
  scrollToBottom (the six cases of \<open>on_key\<close>) leaves the message log and the roster as
  they were: the state after the call is the state before it with at most
  \<open>scrollPosition\<close> and \<open>viewMode\<close> replaced.
\<close>

theorem scroll_keys_frame:
  "messages (on_key height k s) = messages s \<and> users (on_key height k s) = users s \<and>
   on_key height k s = s\<lparr>scrollPosition := scrollPosition (on_key height k s),
                           viewMode := viewMode (on_key height k s)\<rparr>"
  by (cases k)
     (simp_all add: scrollUp_def scrollDown_def scrollPageUp_def scrollPageDown_def
        scrollToTop_def scrollToBottom_def Let_def)

section \<open>Message log\<close>

lemma search_back_none:
  "(\<forall>j<n. \<not> matches txt (ms ! j)) \<Longrightarrow> search_back ms txt n = - 1"
  by (induction n) (simp_all add: matches_def)

lemma search_back_found:
  "i < n \<Longrightarrow> matches txt (ms ! i) \<Longrightarrow> (\<forall>j. i < j \<and> j < n \<longrightarrow> \<not> matches txt (ms ! j))
     \<Longrightarrow> search_back ms txt n = int i"
proof (induction n)
  case 0
  then show ?case by simp
next
  case (Suc n)
  show ?case
  proof (cases "i = n")
    case True
    with Suc.prems show ?thesis by (simp add: matches_def)
  next
    case False
    with Suc.prems have "i < n" by simp
    moreover from Suc.prems False have "\<not> matches txt (ms ! n)" by simp
    moreover from Suc.prems have "\<forall>j. i < j \<and> j < n \<longrightarrow> \<not> matches txt (ms ! j)" by simp
    ultimately show ?thesis using Suc.IH Suc.prems by (simp add: matches_def)
  qed
qed

lemma trimMessages_within:
  "length (messages s) \<le> maxMessages \<Longrightarrow> trimMessages s = s"
  by (simp add: trimMessages_def)

lemma hi_sent_messages: "messages hi_sent = [pending_record ''hi'' ''10:00:00'' 7]"
  by (simp add: hi_sent_def addPendingMessage_def scrollToBottom_def trimMessages_def push_def
        init_ui_def maxMessages_def wall_clock_def pending_record_def)

text \<open>
  C3 (as amended). A confirmation is matched to a pending record by text alone: when the
  newest pending record with the confirmed text is at index \<open>i\<close> (of a log within
  capacity), it is replaced in place by the chat record of the confirmation, whoever the
  sender \<open>nm\<close> is and whatever name the pending record carries.
\<close>

theorem confirmation_ignores_sender:
  assumes "i < length (messages s)"
    and "matches txt (messages s ! i)"
    and "\<forall>j. i < j \<and> j < length (messages s) \<longrightarrow> \<not> matches txt (messages s ! j)"
    and "length (messages s) \<le> maxMessages"
  shows "messages (addChatMessage fmt now nm txt timestamp s) =
           (messages s)[i := chat_record nm txt (time_label fmt now timestamp)]"
proof -
  have "search_back (messages s) txt (length (messages s)) = int i"
    using assms(1-3) by (rule search_back_found)
  then show ?thesis
    using assms(4) by (simp add: addChatMessage_def Let_def trimMessages_within)
qed

theorem confirmation_ignores_sender_witness:
  "msg_name (messages hi_sent ! 0) = Some ''You'' \<and>
   messages (addChatMessage wall_clock 9 ''bob'' ''hi'' (Some 8) hi_sent) =
     [chat_record ''bob'' ''hi'' ''10:00:00'']"
proof -
  have h1: "0 < length (messages hi_sent)" by (simp add: hi_sent_messages)
  have h2: "matches ''hi'' (messages hi_sent ! 0)"
    by (simp add: hi_sent_messages matches_def pending_record_def)
  have h3: "\<forall>j. 0 < j \<and> j < length (messages hi_sent) \<longrightarrow> \<not> matches ''hi'' (messages hi_sent ! j)"
    by (simp add: hi_sent_messages)
  have h4: "length (messages hi_sent) \<le> maxMessages"
    by (simp add: hi_sent_messages maxMessages_def)
  show ?thesis
    using confirmation_ignores_sender [OF h1 h2 h3 h4, of wall_clock 9 "''bob''" "Some 8"]
    by (simp add: hi_sent_messages time_label_def wall_clock_def pending_record_def)
qed

text \<open>
  C3 as stated fails: the pending record is sent under the name \<open>You\<close>, the
  confirmation comes from \<open>bob\<close> with the same text, and the record is replaced.
\<close>

theorem other_sender_replaces_counterexample:
  "the (msg_name (messages hi_sent ! 0)) = ''You'' \<and>
   messages (addChatMessage wall_clock 9 ''bob'' ''hi'' (Some 8) hi_sent) =
     [chat_record ''bob'' ''hi'' ''10:00:00'']"
  by (simp add: hi_sent_messages addChatMessage_def Let_def trimMessages_def maxMessages_def
        pending_record_def time_label_def wall_clock_def)

text \<open>
  C4 (as amended). Confirming \<open>(nm, txt, timestamp)\<close>: when the newest pending record
  with text \<open>txt\<close> is at index \<open>i\<close>, the log after the call is the log with the chat
  record at \<open>i\<close>, trimmed to its last 500 records; for a log of at most 500 records
  that is the replacement in place, the length unchanged and every other record
  untouched. When no pending record has the text, the chat record is appended and the
  log trimmed to its last 500 records; for a log of fewer than 500 records the length
  grows by exactly 1 and every other record is untouched.
\<close>

theorem confirm_replaces_or_appends:
  "(\<forall>i. i < length (messages s) \<and> matches txt (messages s ! i) \<and>
        (\<forall>j. i < j \<and> j < length (messages s) \<longrightarrow> \<not> matches txt (messages s ! j)) \<longrightarrow>
      messages (addChatMessage fmt now nm txt timestamp s) =
        drop (length (messages s) - maxMessages)
          ((messages s)[i := chat_record nm txt (time_label fmt now timestamp)]) \<and>
      (length (messages s) \<le> maxMessages \<longrightarrow>
         messages (addChatMessage fmt now nm txt timestamp s) =
           (messages s)[i := chat_record nm txt (time_label fmt now timestamp)] \<and>
         length (messages (addChatMessage fmt now nm txt timestamp s)) = length (messages s)))
   \<and> ((\<forall>j < length (messages s). \<not> matches txt (messages s ! j)) \<longrightarrow>
      messages (addChatMessage fmt now nm txt timestamp s) =
        drop (Suc (length (messages s)) - maxMessages)
          (messages s @ [chat_record nm txt (time_label fmt now timestamp)]) \<and>
      (length (messages s) < maxMessages \<longrightarrow>
         messages (addChatMessage fmt now nm txt timestamp s) =
           messages s @ [chat_record nm txt (time_label fmt now timestamp)] \<and>
         length (messages (addChatMessage fmt now nm txt timestamp s)) =
           length (messages s) + 1))"
proof (intro conjI allI impI)
  fix i
  assume a: "i < length (messages s) \<and> matches txt (messages s ! i) \<and>
              (\<forall>j. i < j \<and> j < length (messages s) \<longrightarrow> \<not> matches txt (messages s ! j))"
  then have "search_back (messages s) txt (length (messages s)) = int i"
    by (simp add: search_back_found)
  then show d: "messages (addChatMessage fmt now nm txt timestamp s) =
       drop (length (messages s) - maxMessages)
          ((messages s)[i := chat_record nm txt (time_label fmt now timestamp)])"
    by (simp add: addChatMessage_def Let_def trimMessages_def)
  assume "length (messages s) \<le> maxMessages"
  then show "messages (addChatMessage fmt now nm txt timestamp s) =
              (messages s)[i := chat_record nm txt (time_label fmt now timestamp)]"
    using d by simp
  then show "length (messages (addChatMessage fmt now nm txt timestamp s)) = length (messages s)"
    by simp
next
  assume n: "\<forall>j < length (messages s). \<not> matches txt (messages s ! j)"
  then have sb: "search_back (messages s) txt (length (messages s)) = - 1"
    by (rule search_back_none)
  show d: "messages (addChatMessage fmt now nm txt timestamp s) =
              drop (Suc (length (messages s)) - maxMessages)
                (messages s @ [chat_record nm txt (time_label fmt now timestamp)])"
    using sb by (simp add: addChatMessage_def Let_def trimMessages_def push_def)
  assume l: "length (messages s) < maxMessages"
  then show "messages (addChatMessage fmt now nm txt timestamp s) =
                 messages s @ [chat_record nm txt (time_label fmt now timestamp)]"
    using d by simp
  then show "length (messages (addChatMessage fmt now nm txt timestamp s)) =
                 length (messages s) + 1"
    by simp
qed

theorem confirm_replaces_or_appends_witness:
  "messages (addChatMessage wall_clock 9 ''alice'' ''hi'' (Some 8) (init_ui\<lparr>messages := hi_hi\<rparr>)) =
     [system_record ''joined'' ''10:00:00'', pending_record ''hi'' ''10:00:01'' 1,
      chat_record ''alice'' ''hi'' ''10:00:00'', pending_record ''ho'' ''10:00:03'' 3] \<and>
   messages (addChatMessage wall_clock 9 ''alice'' ''hey'' (Some 8) (init_ui\<lparr>messages := hi_hi\<rparr>)) =
     hi_hi @ [chat_record ''alice'' ''hey'' ''10:00:00'']"
proof -
  let ?s = "init_ui\<lparr>messages := hi_hi\<rparr>"
  have l: "length (messages ?s) = 4" by (simp add: hi_hi_def)
  have m: "matches ''hi'' (messages ?s ! 2)"
    by (simp add: hi_hi_def matches_def pending_record_def)
  have n: "\<forall>j. 2 < j \<and> j < length (messages ?s) \<longrightarrow> \<not> matches ''hi'' (messages ?s ! j)"
  proof (intro allI impI)
    fix j assume "2 < j \<and> j < length (messages ?s)"
    then have "j = 3" using l by simp
    then show "\<not> matches ''hi'' (messages ?s ! j)"
      by (simp add: hi_hi_def matches_def pending_record_def)
  qed
  have a: "messages (addChatMessage wall_clock 9 ''alice'' ''hi'' (Some 8) ?s) =
           (messages ?s)[2 := chat_record ''alice'' ''hi'' (time_label wall_clock 9 (Some 8))]"
    using confirm_replaces_or_appends [of ?s "''hi''" wall_clock 9 "''alice''" "Some 8",
        THEN conjunct1, rule_format, of 2] l m n
    by (simp add: maxMessages_def)
  have e: "\<forall>j < length (messages ?s). \<not> matches ''hey'' (messages ?s ! j)"
    by (simp add: hi_hi_def matches_def pending_record_def system_record_def
          All_less_Suc2 eval_nat_numeral)
  have b: "messages (addChatMessage wall_clock 9 ''alice'' ''hey'' (Some 8) ?s) =
           messages ?s @ [chat_record ''alice'' ''hey'' (time_label wall_clock 9 (Some 8))]"
    using confirm_replaces_or_appends [of ?s "''hey''" wall_clock 9 "''alice''" "Some 8",
        THEN conjunct2, rule_format] e l
    by (simp add: maxMessages_def)
  from a b show ?thesis
    by (simp add: hi_hi_def time_label_def wall_clock_def)
qed

lemma full_log_length: "length (messages full_log) = 500"
  by (simp add: full_log_def)

lemma full_log_no_pending: "\<forall>j < length (messages full_log). \<not> matches txt (messages full_log ! j)"
  by (simp add: full_log_def matches_def system_record_def)

text \<open>
  C4 as stated fails on a log of 500 records: no pending record matches, the chat record
  is appended, \<open>trimMessages\<close> drops the oldest record, and the length stays 500.
\<close>

theorem full_log_confirm_counterexample:
  "length (messages full_log) = 500 \<and>
   search_back (messages full_log) ''hello'' (length (messages full_log)) = - 1 \<and>
   length (messages (addChatMessage wall_clock 9 ''bob'' ''hello'' (Some 8) full_log)) = 500"
proof -
  have sb: "search_back (messages full_log) ''hello'' (length (messages full_log)) = - 1"
    using full_log_no_pending by (rule search_back_none)
  then show ?thesis
    using full_log_length
    by (simp add: addChatMessage_def Let_def trimMessages_def push_def maxMessages_def)
qed

text \<open>
  C5. Every method that appends a record pushes it and calls \<open>trimMessages\<close>. After
  that the log holds at most 500 records. When the capacity is exceeded, the log is
  exactly the last 500 records of the old log with the new record, in their order;
  with \<open>k\<close> the number of records dropped, a scroll position (a count, so not negative)
  becomes \<open>max 0 (scrollPosition - k)\<close>, and the mode is \<open>Normal\<close> when the position
  reaches 0.
\<close>

theorem append_keeps_newest_500:
  "length (messages (trimMessages (push r s))) \<le> 500 \<and>
   (length (messages s) < 500 \<longrightarrow> trimMessages (push r s) = push r s) \<and>
   (500 \<le> length (messages s) \<longrightarrow>
      length (messages (trimMessages (push r s))) = 500 \<and>
      messages (trimMessages (push r s)) =
        drop (length (messages s) + 1 - 500) (messages s @ [r]) \<and>
      (0 \<le> scrollPosition s \<longrightarrow>
         scrollPosition (trimMessages (push r s)) =
           max 0 (scrollPosition s - int (length (messages s) + 1 - 500))) \<and>
      (0 < scrollPosition s \<and> scrollPosition (trimMessages (push r s)) = 0 \<longrightarrow>
         viewMode (trimMessages (push r s)) = Normal))"
  by (auto simp add: trimMessages_def push_def Let_def maxMessages_def)

theorem append_keeps_newest_500_witness:
  "length (messages full_log_scrolled) = 500 \<and>
   messages (addSystemMessage wall_clock 5 ''bob joined'' full_log_scrolled) =
     replicate 499 (system_record ''joined'' ''10:00:00'') @ [system_record ''bob joined'' ''10:00:00''] \<and>
   scrollPosition (addSystemMessage wall_clock 5 ''bob joined'' full_log_scrolled) = 0 \<and>
   viewMode (addSystemMessage wall_clock 5 ''bob joined'' full_log_scrolled) = Normal"
  using append_keeps_newest_500 [of "system_record ''bob joined'' ''10:00:00''" full_log_scrolled]
  by (simp add: addSystemMessage_def full_log_scrolled_def full_log_def system_record_def wall_clock_def)

section \<open>Mention autocomplete\<close>

lemma last_from_absent: "(\<forall>j<n. str ! j \<noteq> c) \<Longrightarrow> last_from str c n = - 1"
  by (induction n) simp_all

lemma last_from_found:
  "i < n \<Longrightarrow> str ! i = c \<Longrightarrow> (\<forall>j. i < j \<and> j < n \<longrightarrow> str ! j \<noteq> c) \<Longrightarrow> last_from str c n = int i"
proof (induction n)
  case 0
  then show ?case by simp
next
  case (Suc n)
  then show ?case by (cases "i = n") auto
qed

lemma lastIndexOf_absent: "c \<notin> set str \<Longrightarrow> lastIndexOf str c = - 1"
  unfolding lastIndexOf_def by (rule last_from_absent) (auto simp add: in_set_conv_nth)

lemma nth_after_prefix:
  assumes "length pre < j" and "j < length (pre @ c # frag)"
  shows "(pre @ c # frag) ! j \<in> set frag"
proof -
  from assms have k: "j - Suc (length pre) < length frag" by simp
  from assms have "(pre @ c # frag) ! j = frag ! (j - Suc (length pre))"
    by (simp add: nth_append nth_Cons')
  with k show ?thesis by simp
qed

lemma lastIndexOf_last: "c \<notin> set frag \<Longrightarrow> lastIndexOf (pre @ c # frag) c = int (length pre)"
  unfolding lastIndexOf_def
proof (rule last_from_found)
  show "length pre < length (pre @ c # frag)" by simp
  show "(pre @ c # frag) ! length pre = c" by simp
  assume n: "c \<notin> set frag"
  show "\<forall>j. length pre < j \<and> j < length (pre @ c # frag) \<longrightarrow> (pre @ c # frag) ! j \<noteq> c"
  proof (intro allI impI notI)
    fix j assume j: "length pre < j \<and> j < length (pre @ c # frag)"
      and e: "(pre @ c # frag) ! j = c"
    from j have "(pre @ c # frag) ! j \<in> set frag" by (simp add: nth_after_prefix)
    with e n show False by simp
  qed
qed

lemma roster4_users: "users roster4 = [''Bob'', ''alice'', ''bobby'', ''Rob'']"
  by (simp add: roster4_def addUser_def init_ui_def)

lemma lower_examples:
  "toLowerCase ''bO'' = ''bo''" "toLowerCase ''Bob'' = ''bob''" "toLowerCase ''alice'' = ''alice''"
  "toLowerCase ''bobby'' = ''bobby''" "toLowerCase ''Rob'' = ''rob''"
  by (simp_all add: toLowerCase_def lower_char_def)

text \<open>
  C9. For an input whose last \<open>@\<close> is followed by the fragment \<open>frag\<close> (so \<open>frag\<close>
  holds no \<open>@\<close>), the suggestions are, in roster order, the roster names whose lower-case
  form starts with the lower-case fragment, each given as the input up to and including
  that \<open>@\<close> followed by the full name. An input with no \<open>@\<close>, the empty input
  included, has no suggestions.
\<close>

theorem mention_suggestions:
  "(CHR ''@'' \<notin> set frag \<longrightarrow>
      handleAutoComplete s (pre @ CHR ''@'' # frag) =
        map (\<lambda>user. pre @ CHR ''@'' # user)
          (filter (\<lambda>user. startsWith (toLowerCase user) (toLowerCase frag)) (users s)))
   \<and> (CHR ''@'' \<notin> set input \<longrightarrow> handleAutoComplete s input = [])"
proof -
  have n: "nat (int (length pre) + 1) = Suc (length pre)" by simp
  show ?thesis
    by (simp add: handleAutoComplete_def Let_def lastIndexOf_last lastIndexOf_absent n)
qed

theorem mention_suggestions_witness:
  "handleAutoComplete roster4 ''hi @al and @bO'' =
     [''hi @al and @Bob'', ''hi @al and @bobby''] \<and>
   handleAutoComplete roster4 ''hello'' = []"
proof -
  have a: "CHR ''@'' \<notin> set ''bO''" by simp
  have b: "CHR ''@'' \<notin> set ''hello''" by simp
  note t = mention_suggestions [of "''bO''" roster4 "''hi @al and ''" "''hello''"]
  from t [THEN conjunct1, rule_format, OF a] t [THEN conjunct2, rule_format, OF b]
  show ?thesis
    by (simp add: roster4_users startsWith_def lower_examples)
qed

section \<open>Line wrapper\<close>

subsection \<open>Stripping colour codes\<close>

lemma after_code_Nil [simp]: "after_code [] = None"
  by (simp add: after_code_def)

lemma after_code_not_ESC: "c \<noteq> ESC \<Longrightarrow> after_code (c # cs) = None"
  by (simp add: after_code_def split: list.splits)

lemma after_code_append:
  assumes "x \<noteq> CHR ''[''" and "x \<noteq> CHR ''m''" and "\<not> is_param x" and "a \<noteq> []"
  shows "after_code (a @ x # b) = map_option (\<lambda>r. r @ x # b) (after_code a)"
proof (cases a)
  case Nil
  with assms show ?thesis by simp
next
  case (Cons e t)
  show ?thesis
  proof (cases t)
    case Nil
    with Cons assms show ?thesis by (simp add: after_code_def)
  next
    case (Cons b0 r)
    show ?thesis
    proof (cases "\<forall>y\<in>set r. is_param y")
      case True
      then have d1: "dropWhile is_param r = []" by simp
      from True assms have d2: "dropWhile is_param (r @ x # b) = x # b"
        by (simp add: dropWhile_append)
      show ?thesis
        using \<open>a = e # t\<close> \<open>t = b0 # r\<close> assms by (simp add: after_code_def d1 d2)
    next
      case False
      then obtain y where "y \<in> set r" and "\<not> is_param y" by blast
      then have d: "dropWhile is_param (r @ x # b) = dropWhile is_param r @ x # b"
        by (rule dropWhile_append1)
      from False have "dropWhile is_param r \<noteq> []" by simp
      then obtain m r' where "dropWhile is_param r = m # r'"
        by (cases "dropWhile is_param r") auto
      then show ?thesis
        using \<open>a = e # t\<close> \<open>t = b0 # r\<close> by (simp add: after_code_def d)
    qed
  qed
qed

lemma strip_append_safe:
  "safe x \<Longrightarrow> stripAnsiCodes (a @ x # b) = stripAnsiCodes a @ stripAnsiCodes (x # b)"
proof (induction a rule: stripAnsiCodes.induct)
  case 1
  then show ?case by simp
next
  case (2 c cs)
  from "2.prems" have ac: "after_code ((c # cs) @ x # b) = map_option (\<lambda>r. r @ x # b) (after_code (c # cs))"
    by (intro after_code_append) (simp_all add: safe_def)
  show ?case
  proof (cases "after_code (c # cs)")
    case None
    with ac have n: "after_code (c # cs @ x # b) = None" by simp
    have "stripAnsiCodes ((c # cs) @ x # b) = c # stripAnsiCodes (cs @ x # b)"
      using n by simp
    also have "\<dots> = c # stripAnsiCodes cs @ stripAnsiCodes (x # b)"
      using "2.IH"(1) [OF None "2.prems"] by (simp only: append_Cons)
    also have "\<dots> = stripAnsiCodes (c # cs) @ stripAnsiCodes (x # b)"
      using None by simp
    finally show ?thesis .
  next
    case (Some r)
    with ac have s: "after_code (c # cs @ x # b) = Some (r @ x # b)" by simp
    have "stripAnsiCodes ((c # cs) @ x # b) = stripAnsiCodes (r @ x # b)"
      using s by simp
    also have "\<dots> = stripAnsiCodes r @ stripAnsiCodes (x # b)"
      using "2.IH"(2) [OF Some "2.prems"] .
    also have "\<dots> = stripAnsiCodes (c # cs) @ stripAnsiCodes (x # b)"
      using Some by simp
    finally show ?thesis .
  qed
qed

lemma safe_space: "safe (CHR '' '')"
  by (simp add: safe_def is_param_def)

lemma safe_ESC: "safe ESC"
  by (simp add: safe_def is_param_def ESC_def)

lemma strip_space:
  "stripAnsiCodes (a @ CHR '' '' # b) = stripAnsiCodes a @ CHR '' '' # stripAnsiCodes b"
proof -
  have "after_code (CHR '' '' # b) = None" by (rule after_code_not_ESC) (simp add: ESC_def)
  then have "stripAnsiCodes (CHR '' '' # b) = CHR '' '' # stripAnsiCodes b" by simp
  with strip_append_safe [OF safe_space, of a b] show ?thesis by simp
qed

lemma strip_plain: "ESC \<notin> set str \<Longrightarrow> stripAnsiCodes str = str"
proof (induction str)
  case Nil
  then show ?case by simp
next
  case (Cons c cs)
  then have "c \<noteq> ESC" by auto
  then have "after_code (c # cs) = None" by (rule after_code_not_ESC)
  with Cons show ?case by simp
qed

lemma after_code_sgr: "list_all is_param n \<Longrightarrow> after_code (sgr n @ b) = Some b"
proof -
  assume "list_all is_param n"
  then have "dropWhile is_param (n @ CHR ''m'' # b) = CHR ''m'' # b"
    by (simp add: dropWhile_append list_all_iff is_param_def)
  then show ?thesis by (simp add: after_code_def sgr_def)
qed

lemma strip_sgr: "list_all is_param n \<Longrightarrow> stripAnsiCodes (sgr n @ b) = stripAnsiCodes b"
proof -
  assume a: "list_all is_param n"
  have "sgr n @ b = ESC # (CHR ''['' # n @ ''m'') @ b" by (simp add: sgr_def)
  then show ?thesis using after_code_sgr [OF a, of b] by simp
qed

lemma strip_before_sgr:
  "stripAnsiCodes (a @ sgr n @ b) = stripAnsiCodes a @ stripAnsiCodes (sgr n @ b)"
  using strip_append_safe [OF safe_ESC, of a "CHR ''['' # n @ ''m'' @ b"]
  by (simp add: sgr_def)

lemma strip_style:
  assumes "list_all is_param o1" and "list_all is_param c1" and "0 < level"
  shows "stripAnsiCodes (style level (sgr o1) (sgr c1) str @ b) =
           stripAnsiCodes str @ stripAnsiCodes b"
proof (cases "str = []")
  case True
  then show ?thesis by (simp add: style_def)
next
  case False
  with assms(3) have "style level (sgr o1) (sgr c1) str @ b = sgr o1 @ (str @ sgr c1 @ b)"
    by (simp add: style_def)
  then show ?thesis
    using assms(1,2) by (simp add: strip_sgr strip_before_sgr)
qed

lemma strip_gray:
  "0 < level \<Longrightarrow>
     stripAnsiCodes (chalk_gray level str @ b) = stripAnsiCodes str @ stripAnsiCodes b"
  unfolding chalk_gray_def by (rule strip_style) (simp_all add: is_param_def)

lemma style_level_0: "style 0 opn cls str = str"
  by (simp add: style_def)



subsection \<open>Widths below 1\<close>

lemma strip_bracketed_nonempty: "stripAnsiCodes (bracketed msg) \<noteq> []"
proof -
  have "after_code (CHR ''['' # msg_timestamp msg @ '']'') = None"
    by (rule after_code_not_ESC) (simp add: ESC_def)
  then show ?thesis by (simp add: bracketed_def)
qed

lemma strip_gray_bracketed:
  "stripAnsiCodes (chalk_gray level (bracketed msg)) = stripAnsiCodes (bracketed msg)"
proof (cases "level = 0")
  case True
  then show ?thesis by (simp add: chalk_gray_def style_level_0)
next
  case False
  then show ?thesis using strip_gray [of level "bracketed msg" "[]"] by simp
qed

lemma plain_full_length: "2 \<le> length (stripAnsiCodes (fullMessage level msg))"
proof -
  have "stripAnsiCodes (fullMessage level msg) =
          stripAnsiCodes (bracketed msg) @ CHR '' '' # stripAnsiCodes (content level msg)"
    using strip_space [of "chalk_gray level (bracketed msg)" "content level msg"]
    by (simp add: fullMessage_def strip_gray_bracketed)
  moreover have "1 \<le> length (stripAnsiCodes (bracketed msg))"
    using strip_bracketed_nonempty [of msg] by (cases "stripAnsiCodes (bracketed msg)") simp_all
  ultimately show ?thesis by simp
qed

lemma wrap_word_narrow:
  assumes "maxWidth \<le> 1" and "2 \<le> length p"
  shows "wrap_word level ts maxWidth (ls, c, p) word =
           (flush level ts (ls, c, p), chalk_gray level (replicate (length ts + 2) (CHR '' '')) @ word,
            replicate (length ts + 2) (CHR '' '') @ stripAnsiCodes word)"
  using assms by (simp add: wrap_word_def Let_def)

lemma wrap_loop_narrow:
  "maxWidth \<le> 1 \<Longrightarrow> 2 \<le> length p \<Longrightarrow>
     wrap_loop level ts maxWidth words (ls, c, p) = wrap_loop level ts 1 words (ls, c, p)"
proof (induction words arbitrary: ls c p)
  case Nil
  then show ?case by simp
next
  case (Cons word words)
  have "2 \<le> length (replicate (length ts + 2) (CHR '' '') @ stripAnsiCodes word)" by simp
  with Cons show ?case by (simp add: wrap_word_narrow)
qed

text \<open>
  C8. At every colour level, for every record and every \<open>maxWidth \<le> 0\<close> the lines are
  those for
  \<open>maxWidth = 1\<close>: the unstyled rendering has at least two characters, so it never
  fits, and every word starts a line of its own at either width.
\<close>

theorem nonpositive_width_as_one:
  "maxWidth \<le> 0 \<Longrightarrow> formatMessageToLines level msg maxWidth = formatMessageToLines level msg 1"
proof -
  assume w: "maxWidth \<le> 0"
  have n: "\<not> int (length (stripAnsiCodes (fullMessage level msg))) \<le> maxWidth"
    and n1: "\<not> int (length (stripAnsiCodes (fullMessage level msg))) \<le> 1"
    using plain_full_length [of level msg] w by simp_all
  have "2 \<le> length (bracketed msg @ '' '')" by (simp add: bracketed_def)
  with w have "wrap_loop level (bracketed msg) maxWidth (split_on (CHR '' '') (content level msg))
                 ([], chalk_gray level (bracketed msg) @ '' '', bracketed msg @ '' '') =
               wrap_loop level (bracketed msg) 1 (split_on (CHR '' '') (content level msg))
                 ([], chalk_gray level (bracketed msg) @ '' '', bracketed msg @ '' '')"
    by (intro wrap_loop_narrow) simp_all
  with n n1 show ?thesis by (simp add: formatMessageToLines_def Let_def)
qed

theorem nonpositive_width_as_one_witness:
  "(- 3 :: int) \<le> 0 \<and>
   formatMessageToLines 1 two_words (- 3) = formatMessageToLines 1 two_words 1 \<and>
   map stripAnsiCodes (formatMessageToLines 1 two_words 1) =
     [''            aaaaaaaaaa'', ''            bbbbbbbbbb'']"
proof -
  have h: "(- 3 :: int) \<le> 0" by simp
  have e: "map stripAnsiCodes (formatMessageToLines 1 two_words 1) =
             [''            aaaaaaaaaa'', ''            bbbbbbbbbb'']"
    by code_simp
  from h nonpositive_width_as_one [OF h, of 1 two_words] e show ?thesis by simp
qed

subsection \<open>Wrapped lines\<close>

lemma join_sp_snoc: "xs \<noteq> [] \<Longrightarrow> join_sp (xs @ [b]) = join_sp xs @ '' '' @ b"
  by (induction xs rule: join_sp.induct) simp_all

lemma join_sp_snoc_grow: "join_sp (xs @ [a @ '' '' @ b]) = join_sp (xs @ [a]) @ '' '' @ b"
  by (induction xs rule: join_sp.induct) simp_all

lemma split_on_nonempty: "split_on sep str \<noteq> []"
  by (induction str) (simp_all split: list.splits)

lemma join_sp_Cons_Cons: "join_sp ((c # w) # ws) = c # join_sp (w # ws)"
  by (cases ws) simp_all

lemma join_split: "join_sp (split_on (CHR '' '') str) = str"
proof (induction str)
  case Nil
  then show ?case by simp
next
  case (Cons c cs)
  obtain w ws where s: "split_on (CHR '' '') cs = w # ws"
    using split_on_nonempty [of "CHR '' ''" cs] by (cases "split_on (CHR '' '') cs") auto
  show ?case
  proof (cases "c = CHR '' ''")
    case True
    with s Cons show ?thesis by simp
  next
    case False
    with s Cons show ?thesis by (simp add: join_sp_Cons_Cons)
  qed
qed

lemma split_on_no_sep: "word \<in> set (split_on sep str) \<Longrightarrow> sep \<notin> set word"
proof (induction str arbitrary: word)
  case Nil
  then show ?case by simp
next
  case (Cons c cs)
  obtain w ws where s: "split_on sep cs = w # ws"
    using split_on_nonempty [of sep cs] by (cases "split_on sep cs") auto
  show ?case
  proof (cases "c = sep")
    case True
    with Cons show ?thesis by auto
  next
    case False
    with s Cons.prems have "word = c # w \<or> word \<in> set ws" by simp
    moreover have "sep \<notin> set w" using Cons.IH [of w] s by simp
    moreover have "word \<in> set ws \<Longrightarrow> sep \<notin> set word" using Cons.IH [of word] s by simp
    ultimately show ?thesis using False by auto
  qed
qed

lemma strip_join: "stripAnsiCodes (join_sp ws) = join_sp (map stripAnsiCodes ws)"
proof (induction ws rule: join_sp.induct)
  case 1
  then show ?case by simp
next
  case (2 w)
  then show ?case by simp
next
  case (3 w v ws)
  then show ?case
    using strip_space [of w "join_sp (v # ws)"] by simp
qed

lemma after_code_suffix: "after_code str = Some r \<Longrightarrow> \<exists>p. str = p @ r"
proof -
  assume a: "after_code str = Some r"
  then obtain e b t where s: "str = e # b # t"
    by (auto simp add: after_code_def split: list.splits)
  with a obtain m where d: "dropWhile is_param t = m # r"
    by (auto simp add: after_code_def split: list.splits if_splits)
  have "t = takeWhile is_param t @ dropWhile is_param t" by simp
  with d have "t = (takeWhile is_param t @ [m]) @ r" by simp
  with s have "str = (e # b # takeWhile is_param t @ [m]) @ r" by simp
  then show ?thesis by blast
qed

lemma set_strip: "set (stripAnsiCodes str) \<subseteq> set str"
proof (induction str rule: stripAnsiCodes.induct)
  case 1
  then show ?case by simp
next
  case (2 c cs)
  show ?case
  proof (cases "after_code (c # cs)")
    case None
    with "2.IH"(1) show ?thesis by auto
  next
    case (Some r)
    then obtain p where "c # cs = p @ r" using after_code_suffix by blast
    then have "set r \<subseteq> set (c # cs)" by (metis set_append sup_ge2)
    with Some "2.IH"(2) show ?thesis by auto
  qed
qed

lemma trim_inked: "inked y x \<Longrightarrow> trim x \<noteq> y"
proof -
  assume i: "inked y x"
  then have h: "dropWhile is_ws x = x" by (cases x) (simp_all add: inked_def)
  from i obtain c where c: "c \<in> set (drop (length y) x)" "\<not> is_ws c"
    by (auto simp add: inked_def)
  then have cr: "c \<in> set (rev (drop (length y) x))" by simp
  have "rev x = rev (drop (length y) x) @ rev (take (length y) x)"
    by (metis append_take_drop_id rev_append)
  then have "dropWhile is_ws (rev x) =
               dropWhile is_ws (rev (drop (length y) x)) @ rev (take (length y) x)"
    using dropWhile_append1 [of c "rev (drop (length y) x)" is_ws "rev (take (length y) x)"] cr c(2)
    by simp
  moreover have "dropWhile is_ws (rev (drop (length y) x)) \<noteq> []"
    using cr c(2) by (auto simp add: dropWhile_eq_Nil_conv)
  moreover from c(1) have "length y < length x"
    by (cases "length y < length x") simp_all
  ultimately have "length y < length (dropWhile is_ws (rev x))"
    by (cases "dropWhile is_ws (rev (drop (length y) x))") simp_all
  then have "length y < length (trim x)" by (simp add: trim_def h)
  then show ?thesis by auto
qed

lemma inked_append: "inked y x \<Longrightarrow> inked y (x @ z)"
  by (auto simp add: inked_def)

lemma gray_nonempty:
  "0 < level \<Longrightarrow> x \<noteq> [] \<Longrightarrow> chalk_gray level x = sgr ''90'' @ x @ sgr ''39''"
  by (simp add: chalk_gray_def style_def)

lemma not_ws_ESC: "\<not> is_ws ESC"
  by (simp add: is_ws_def ESC_def)

lemma strip_first_prefix:
  "0 < level \<Longrightarrow> ESC \<notin> set ts \<Longrightarrow>
     stripAnsiCodes (chalk_gray level ts @ '' '' @ b) = ts @ '' '' @ stripAnsiCodes b"
  using strip_space [of "chalk_gray level ts" b] strip_gray [of level ts "[]"]
  by (simp add: strip_plain)

lemma strip_fresh:
  assumes "0 < level"
  shows "stripAnsiCodes (chalk_gray level (indent_of ts) @ word) =
           indent_of ts @ stripAnsiCodes word"
proof -
  have "ESC \<notin> set (indent_of ts)" by (simp add: indent_of_def ESC_def)
  then show ?thesis
    using strip_gray [OF assms, of "indent_of ts" word] by (simp add: strip_plain)
qed

lemma trim_first_prefix:
  "0 < level \<Longrightarrow> ts \<noteq> [] \<Longrightarrow> trim (chalk_gray level ts @ '' '') = chalk_gray level ts"
proof -
  assume n: "0 < level" "ts \<noteq> []"
  then have g: "chalk_gray level ts = ESC # CHR ''['' # ''90m'' @ ts @ ESC # CHR ''['' # ''39'' @ [CHR ''m'']"
    by (simp add: gray_nonempty sgr_def)
  have l: "dropWhile is_ws (chalk_gray level ts @ '' '') = chalk_gray level ts @ '' ''"
    unfolding g by (simp add: not_ws_ESC)
  have "rev (chalk_gray level ts @ '' '') = CHR '' '' # CHR ''m'' # rev (ESC # CHR ''['' # ''90m'' @ ts @ ESC # CHR ''['' # ''39'')"
    unfolding g by simp
  then have "dropWhile is_ws (rev (chalk_gray level ts @ '' '')) =
               CHR ''m'' # rev (ESC # CHR ''['' # ''90m'' @ ts @ ESC # CHR ''['' # ''39'')"
    by (simp add: is_ws_def)
  then have r: "rev (dropWhile is_ws (rev (chalk_gray level ts @ '' ''))) =
               (ESC # CHR ''['' # ''90m'' @ ts @ ESC # CHR ''['' # ''39'') @ [CHR ''m'']"
    by simp
  have "trim (chalk_gray level ts @ '' '') = rev (dropWhile is_ws (rev (chalk_gray level ts @ '' '')))"
    unfolding trim_def l ..
  also note r
  also have "(ESC # CHR ''['' # ''90m'' @ ts @ ESC # CHR ''['' # ''39'') @ [CHR ''m''] = chalk_gray level ts"
    unfolding g by simp
  finally show ?thesis .
qed

lemma inked_not_first_prefix:
  "0 < level \<Longrightarrow> ts \<noteq> [] \<Longrightarrow> inked (chalk_gray level ts) x \<Longrightarrow>
     x \<noteq> chalk_gray level ts @ '' ''"
  using trim_inked [of "chalk_gray level ts" x] trim_first_prefix [of level ts] by auto

lemma visible_facts:
  assumes "visible word" and "CHR '' '' \<notin> set word"
  shows "stripAnsiCodes word \<noteq> []" and "\<exists>c\<in>set word. \<not> is_ws c"
    and "\<not> endsWith_space (p @ stripAnsiCodes word)"
proof -
  from assms(1) obtain c where c: "c \<in> set (stripAnsiCodes word)" "\<not> is_ws c"
    by (auto simp add: visible_def list_ex_iff)
  then show n: "stripAnsiCodes word \<noteq> []" by auto
  from c set_strip [of word] show "\<exists>c\<in>set word. \<not> is_ws c" by auto
  from assms(2) set_strip [of word] have "CHR '' '' \<notin> set (stripAnsiCodes word)" by auto
  moreover from n have "last (p @ stripAnsiCodes word) \<in> set (stripAnsiCodes word)" by simp
  ultimately show "\<not> endsWith_space (p @ stripAnsiCodes word)"
    by (auto simp add: endsWith_space_def)
qed

lemma inked_first_line:
  assumes "ts \<noteq> []" and "\<exists>c\<in>set word. \<not> is_ws c" and "0 < level"
  shows "inked (chalk_gray level ts) (chalk_gray level ts @ '' '' @ word)"
proof -
  from assms(1,3) have "hd (chalk_gray level ts @ '' '' @ word) = ESC"
    by (simp add: gray_nonempty sgr_def)
  moreover from assms(1,3) have "chalk_gray level ts \<noteq> []"
    by (simp add: gray_nonempty sgr_def)
  ultimately show ?thesis using assms(2) by (auto simp add: inked_def not_ws_ESC)
qed

lemma inked_fresh:
  assumes "ts \<noteq> []" and "\<exists>c\<in>set word. \<not> is_ws c" and "0 < level"
  shows "inked (chalk_gray level ts) (chalk_gray level (indent_of ts) @ word)"
proof -
  have i: "indent_of ts \<noteq> []" by (simp add: indent_of_def)
  with assms(3) have "hd (chalk_gray level (indent_of ts) @ word) = ESC"
    by (simp add: gray_nonempty sgr_def)
  moreover from i assms(1,3)
  have "length (chalk_gray level ts) \<le> length (chalk_gray level (indent_of ts))"
    by (simp add: gray_nonempty indent_of_def)
  then have "set word \<subseteq>
      set (drop (length (chalk_gray level ts)) (chalk_gray level (indent_of ts) @ word))"
    by simp
  moreover from i assms(3) have "chalk_gray level (indent_of ts) \<noteq> []"
    by (simp add: gray_nonempty sgr_def)
  ultimately show ?thesis using assms(2) by (auto simp add: inked_def not_ws_ESC)
qed

lemma unprefix_first: "ts \<noteq> [] \<Longrightarrow> hd ts = CHR ''['' \<Longrightarrow> unprefix (length ts) (ts @ '' '' @ b) = b"
  by (simp add: unprefix_def)

lemma unprefix_fresh: "unprefix (length ts) (indent_of ts @ b) = b"
  by (simp add: unprefix_def indent_of_def)

lemma unprefix_grow:
  assumes "if hd p = CHR ''['' then n + 1 \<le> length p else n + 2 \<le> length p"
  shows "unprefix n (p @ z) = unprefix n p @ z"
proof -
  from assms have "p \<noteq> []" by (cases p) (simp_all split: if_splits)
  then have "hd (p @ z) = hd p" by simp
  with assms \<open>p \<noteq> []\<close> show ?thesis by (auto simp add: unprefix_def split: if_splits)
qed


lemma wrap_word_inv:
  assumes inv: "wrap_inv level ts w W seen st"
    and v: "visible word" and ns: "CHR '' '' \<notin> set word" and inW: "word \<in> W"
    and esc: "ESC \<notin> set ts" and ne: "ts \<noteq> []" and hb: "hd ts = CHR ''[''"
    and lv: "0 < level"
  shows "wrap_inv level ts w W (seen @ [word]) (wrap_word level ts w st word)"
proof -
  obtain ls cur plain where st: "st = (ls, cur, plain)" by (cases st)
  let ?pw = "stripAnsiCodes word"
  let ?init = "chalk_gray level ts @ '' ''"
  let ?ind = "indent_of ts"
  note vf = visible_facts [OF v ns]
  have sc: "stripAnsiCodes cur = plain" and lsok: "\<forall>l\<in>set ls. line_ok level ts w W l"
    using inv st by (simp_all add: wrap_inv_def)
  have f_strip: "stripAnsiCodes (chalk_gray level ?ind @ word) = ?ind @ ?pw" by (rule strip_fresh [OF lv])
  have f_inked: "inked (chalk_gray level ts) (chalk_gray level ?ind @ word)"
    by (rule inked_fresh [OF ne vf(2) lv])
  have f_ne: "chalk_gray level ?ind @ word \<noteq> ?init"
    using inked_not_first_prefix [OF lv ne f_inked] .
  have f_ends: "\<not> endsWith_space (?ind @ ?pw)" by (rule vf(3))
  have f_hd: "hd (?ind @ ?pw) \<noteq> CHR ''[''" by (simp add: indent_of_def)
  have f_len: "length ts + 2 \<le> length (?ind @ ?pw)" by (simp add: indent_of_def)
  have f_un: "unprefix (length ts) (?ind @ ?pw) = ?pw" by (rule unprefix_fresh)
  have f_ok: "line_ok level ts w W (chalk_gray level ?ind @ word)"
    using inW by (auto simp add: line_ok_def)
  show ?thesis
  proof (cases "cur = ?init")
    case True
    with inv st have e: "ls = []" "seen = []" by (simp_all add: wrap_inv_def)
    from True sc have p: "plain = ts @ '' ''"
      using strip_first_prefix [OF lv esc, of "[]"] by simp
    then have es: "endsWith_space plain" by (simp add: endsWith_space_def)
    have tr: "trim cur = chalk_gray level ts" using True trim_first_prefix [OF lv ne] by simp
    show ?thesis
    proof (cases "int (length (plain @ ?pw)) \<le> w")
      case fits: True
      have ww: "wrap_word level ts w st word = ([], ?init @ word, plain @ ?pw)"
        using st True e es fits by (simp add: wrap_word_def Let_def)
      have s1: "stripAnsiCodes (?init @ word) = plain @ ?pw"
        using strip_first_prefix [OF lv esc, of word] p by simp
      have i1: "inked (chalk_gray level ts) (?init @ word)"
        using inked_first_line [OF ne vf(2) lv] by simp
      have n1: "?init @ word \<noteq> ?init" using inked_not_first_prefix [OF lv ne i1] .
      have u1: "unwrap ts [?init @ word] = ?pw"
        using s1 p unprefix_first [OF ne hb, of ?pw] by (simp add: unwrap_def)
      have h1: "hd (plain @ ?pw) = CHR ''[''" using p ne hb by simp
      have ok1: "line_ok level ts w W (?init @ word)" using s1 fits by (simp add: line_ok_def)
      have ne1: "\<not> endsWith_space (plain @ ?pw)" by (rule vf(3))
      show ?thesis
        unfolding ww wrap_inv_def using s1 i1 n1 u1 h1 ok1 ne1 p e by simp
    next
      case nofit: False
      have ww: "wrap_word level ts w st word = ([], chalk_gray level ?ind @ word, ?ind @ ?pw)"
        using st True e es nofit tr by (simp add: wrap_word_def Let_def flush_def indent_of_def)
      have u1: "unwrap ts [chalk_gray level ?ind @ word] = ?pw"
        using f_strip f_un by (simp add: unwrap_def)
      show ?thesis
        unfolding ww wrap_inv_def
        using f_strip f_inked f_ne f_ends f_hd f_len u1 f_ok e by simp
    qed
  next
    case False
    with inv st have a: "seen \<noteq> []" "\<not> endsWith_space plain" "inked (chalk_gray level ts) cur"
        "if hd plain = CHR ''['' then length ts + 1 \<le> length plain
         else length ts + 2 \<le> length plain"
        "unwrap ts (ls @ [cur]) = join_sp (map stripAnsiCodes seen)" "line_ok level ts w W cur"
      by (auto simp add: wrap_inv_def split: if_splits)
    have tr: "trim cur \<noteq> chalk_gray level ts" using trim_inked [OF a(3)] .
    have js: "join_sp (map stripAnsiCodes (seen @ [word])) =
                join_sp (map stripAnsiCodes seen) @ '' '' @ ?pw"
      using a(1) join_sp_snoc [of "map stripAnsiCodes seen" ?pw] by simp
    show ?thesis
    proof (cases "int (length (plain @ '' '' @ ?pw)) \<le> w")
      case fits: True
      have ww: "wrap_word level ts w st word = (ls, cur @ '' '' @ word, plain @ '' '' @ ?pw)"
        using st False a(2) fits by (simp add: wrap_word_def Let_def)
      have s1: "stripAnsiCodes (cur @ '' '' @ word) = plain @ '' '' @ ?pw"
        using strip_space [of cur word] sc by simp
      have i1: "inked (chalk_gray level ts) (cur @ '' '' @ word)" using a(3) by (rule inked_append)
      have n1: "cur @ '' '' @ word \<noteq> ?init" using inked_not_first_prefix [OF lv ne i1] .
      have pne: "plain \<noteq> []" using a(4) by (cases plain) (simp_all split: if_splits)
      have h1: "hd (plain @ '' '' @ ?pw) = hd plain" using pne by simp
      have g1: "if hd (plain @ '' '' @ ?pw) = CHR ''[''
                then length ts + 1 \<le> length (plain @ '' '' @ ?pw)
                else length ts + 2 \<le> length (plain @ '' '' @ ?pw)"
        using a(4) h1 by (simp split: if_splits)
      have "unprefix (length ts) (plain @ '' '' @ ?pw) = unprefix (length ts) plain @ '' '' @ ?pw"
        using a(4) by (rule unprefix_grow)
      then have u1: "unwrap ts (ls @ [cur @ '' '' @ word]) = unwrap ts (ls @ [cur]) @ '' '' @ ?pw"
        using s1 sc
          join_sp_snoc_grow [of "map (\<lambda>l. unprefix (length ts) (stripAnsiCodes l)) ls"
            "unprefix (length ts) plain" ?pw]
        by (simp add: unwrap_def)
      have ok1: "line_ok level ts w W (cur @ '' '' @ word)" using s1 fits by (simp add: line_ok_def)
      have ne1: "\<not> endsWith_space (plain @ '' '' @ ?pw)"
        using vf(3) [of "plain @ '' ''"] by simp
      show ?thesis
        unfolding ww wrap_inv_def
        using s1 i1 n1 g1 u1 a(5) js ok1 lsok a(1) ne1 by (simp split: if_splits)
    next
      case nofit: False
      have ww: "wrap_word level ts w st word = (ls @ [cur], chalk_gray level ?ind @ word, ?ind @ ?pw)"
        using st False a(2) nofit tr by (simp add: wrap_word_def Let_def flush_def indent_of_def)
      have u1: "unwrap ts ((ls @ [cur]) @ [chalk_gray level ?ind @ word]) =
                  unwrap ts (ls @ [cur]) @ '' '' @ ?pw"
        using join_sp_snoc [of "map (\<lambda>l. unprefix (length ts) (stripAnsiCodes l)) (ls @ [cur])" ?pw]
          f_strip f_un
        by (simp add: unwrap_def)
      show ?thesis
        unfolding ww wrap_inv_def
        using f_strip f_inked f_ne f_ends f_hd f_len u1 a(5) js f_ok lsok a(6) a(1) by simp
    qed
  qed
qed

lemma wrap_loop_inv:
  assumes "wrap_inv level ts w W seen st"
    and "\<forall>word\<in>set words. visible word \<and> CHR '' '' \<notin> set word \<and> word \<in> W"
    and "ESC \<notin> set ts" and "ts \<noteq> []" and "hd ts = CHR ''[''" and "0 < level"
  shows "wrap_inv level ts w W (seen @ words) (wrap_loop level ts w words st)"
  using assms(1,2)
proof (induction words arbitrary: seen st)
  case Nil
  then show ?case by simp
next
  case (Cons word words)
  from Cons.prems have "wrap_inv level ts w W (seen @ [word]) (wrap_word level ts w st word)"
    using assms(3-6) by (intro wrap_word_inv) simp_all
  with Cons.prems Cons.IH [of "seen @ [word]" "wrap_word level ts w st word"] show ?case by simp
qed

lemma strip_green_bold:
  assumes "0 < level"
  shows "stripAnsiCodes (chalk_green_bold level str @ b) = stripAnsiCodes str @ stripAnsiCodes b"
proof (cases "str = []")
  case True
  then show ?thesis by (simp add: chalk_green_bold_def style_def)
next
  case False
  have p: "list_all is_param ''32''" "list_all is_param ''1''" "list_all is_param ''22''"
    "list_all is_param ''39''"
    by (simp_all add: is_param_def)
  from False assms have "chalk_green_bold level str @ b =
      sgr ''32'' @ (sgr ''1'' @ (str @ sgr ''22'' @ (sgr ''39'' @ b)))"
    by (simp add: chalk_green_bold_def style_def)
  then show ?thesis
    by (simp only: strip_sgr [OF p(1)] strip_sgr [OF p(2)] strip_before_sgr [of str]
          strip_sgr [OF p(3)] strip_sgr [OF p(4)])
qed

lemma plain_chat_content:
  assumes "msg_type msg = Chat" and "ESC \<notin> set (name_text msg)" and "ESC \<notin> set (msg_text msg)"
  shows "stripAnsiCodes (content level msg) = name_text msg @ '': '' @ msg_text msg"
proof -
  have "ESC \<notin> set ('': '' @ msg_text msg)" using assms(3) by (simp add: ESC_def)
  then have s: "stripAnsiCodes ('': '' @ msg_text msg) = '': '' @ msg_text msg"
    by (rule strip_plain)
  show ?thesis
  proof (cases "level = 0")
    case True
    have "ESC \<notin> set (name_text msg @ '': '' @ msg_text msg)"
      using assms(2,3) by (simp add: ESC_def)
    then have "stripAnsiCodes (name_text msg @ '': '' @ msg_text msg) =
                 name_text msg @ '': '' @ msg_text msg"
      by (rule strip_plain)
    with True assms(1) show ?thesis
      by (simp add: content_def chalk_green_bold_def style_level_0)
  next
    case False
    then have "0 < level" by simp
    from s assms(1,2) show ?thesis
      using strip_green_bold [OF \<open>0 < level\<close>, of "name_text msg" "'': '' @ msg_text msg"]
      by (simp add: content_def strip_plain)
  qed
qed

lemma bob_long_lines:
  "map stripAnsiCodes (formatMessageToLines 1 bob_long 40) =
     [''[10:00:00] bob: hello there this is a'',
      ''            long message that needs'',
      ''            wrapping'']"
  by code_simp

lemma bob_long_visible: "list_all visible (split_on (CHR '' '') (content 1 bob_long))"
  by code_simp

text \<open>
  C6 (as amended). At a chalk colour level of 1 or more, for a record whose time label
  holds no escape character and whose content has a visible character in each of its
  space-separated words, wrapped into more than one line at \<open>maxWidth\<close>: every line has an unstyled length of at most
  \<open>maxWidth\<close>, except a continuation line that is the indent and a single word (a word
  that did not fit after the indent, longer than \<open>maxWidth\<close> or not); and the unstyled
  lines, without the timestamp bracket or the indent and joined by single spaces, are the
  unstyled content, which is \<open>name: text\<close> for a chat record whose name and text hold no
  escape character.
\<close>

theorem wrapped_lines_fit_and_reconstruct:
  assumes "1 < length (formatMessageToLines level msg maxWidth)"
    and "list_all visible (split_on (CHR '' '') (content level msg))"
    and "ESC \<notin> set (msg_timestamp msg)"
    and "0 < level"
  shows "(\<forall>l \<in> set (formatMessageToLines level msg maxWidth).
            int (length (stripAnsiCodes l)) \<le> maxWidth \<or>
            (\<exists>word \<in> set (split_on (CHR '' '') (content level msg)).
               l = chalk_gray level (indent_of (bracketed msg)) @ word))
       \<and> unwrap (bracketed msg) (formatMessageToLines level msg maxWidth) =
           stripAnsiCodes (content level msg)
       \<and> (msg_type msg = Chat \<and> ESC \<notin> set (name_text msg) \<and> ESC \<notin> set (msg_text msg) \<longrightarrow>
            unwrap (bracketed msg) (formatMessageToLines level msg maxWidth) =
              name_text msg @ '': '' @ msg_text msg)"
proof -
  let ?ts = "bracketed msg"
  let ?words = "split_on (CHR '' '') (content level msg)"
  let ?W = "set ?words"
  let ?st = "wrap_loop level ?ts maxWidth ?words ([], chalk_gray level ?ts @ '' '', ?ts @ '' '')"
  obtain ls cur plain where st: "?st = (ls, cur, plain)" by (cases ?st)
  have esc: "ESC \<notin> set ?ts" using assms(3) by (simp add: bracketed_def ESC_def)
  have ne: "?ts \<noteq> []" and hb: "hd ?ts = CHR ''[''" by (simp_all add: bracketed_def)
  have nofit: "\<not> int (length (stripAnsiCodes (fullMessage level msg))) \<le> maxWidth"
    using assms(1) by (auto simp add: formatMessageToLines_def)
  have i0: "wrap_inv level ?ts maxWidth ?W [] ([], chalk_gray level ?ts @ '' '', ?ts @ '' '')"
    using strip_first_prefix [OF assms(4) esc, of "[]"] by (simp add: wrap_inv_def)
  have aw: "\<forall>word\<in>set ?words. visible word \<and> CHR '' '' \<notin> set word \<and> word \<in> ?W"
    using assms(2) split_on_no_sep [of _ "CHR '' ''" "content level msg"]
    by (auto simp add: list_all_iff)
  have "wrap_inv level ?ts maxWidth ?W ([] @ ?words) ?st"
    using i0 aw esc ne hb assms(4) by (rule wrap_loop_inv)
  then have inv: "wrap_inv level ?ts maxWidth ?W ?words (ls, cur, plain)" using st by simp
  have wne: "?words \<noteq> []" by (rule split_on_nonempty)
  with inv have c: "cur \<noteq> chalk_gray level ?ts @ '' ''"
    by (auto simp add: wrap_inv_def)
  with inv have a: "inked (chalk_gray level ?ts) cur"
      "unwrap ?ts (ls @ [cur]) = join_sp (map stripAnsiCodes ?words)"
      "line_ok level ?ts maxWidth ?W cur" "\<forall>l\<in>set ls. line_ok level ?ts maxWidth ?W l"
    by (simp_all add: wrap_inv_def)
  have "trim cur \<noteq> chalk_gray level ?ts" using trim_inked [OF a(1)] .
  then have fl: "flush level ?ts ?st = ls @ [cur]" using st by (simp add: flush_def)
  have res: "formatMessageToLines level msg maxWidth = ls @ [cur]"
    using nofit fl by (simp add: formatMessageToLines_def Let_def)
  have one: "\<forall>l \<in> set (formatMessageToLines level msg maxWidth).
            int (length (stripAnsiCodes l)) \<le> maxWidth \<or>
            (\<exists>word \<in> set (split_on (CHR '' '') (content level msg)).
               l = chalk_gray level (indent_of (bracketed msg)) @ word)"
    unfolding res using a(3,4) by (auto simp add: line_ok_def)
  have "join_sp (map stripAnsiCodes ?words) = stripAnsiCodes (join_sp ?words)"
    by (simp add: strip_join)
  then have two: "unwrap ?ts (formatMessageToLines level msg maxWidth) = stripAnsiCodes (content level msg)"
    unfolding res using a(2) by (simp add: join_split)
  from one two plain_chat_content [of msg level] show ?thesis by simp
qed

theorem wrapped_lines_fit_and_reconstruct_witness:
  "1 < length (formatMessageToLines 1 bob_long 40) \<and>
   list_all visible (split_on (CHR '' '') (content 1 bob_long)) \<and>
   ESC \<notin> set (msg_timestamp bob_long) \<and> 0 < (1 :: nat) \<and>
   list_all (\<lambda>l. int (length (stripAnsiCodes l)) \<le> 40) (formatMessageToLines 1 bob_long 40) \<and>
   unwrap (bracketed bob_long) (formatMessageToLines 1 bob_long 40) =
     ''bob: hello there this is a long message that needs wrapping''"
proof -
  have h1: "1 < length (formatMessageToLines 1 bob_long 40)"
    using arg_cong [OF bob_long_lines, of length] by simp
  have h2: "list_all visible (split_on (CHR '' '') (content 1 bob_long))" by (rule bob_long_visible)
  have h3: "ESC \<notin> set (msg_timestamp bob_long)" by (simp add: bob_long_def ESC_def)
  have h4: "0 < (1 :: nat)" by simp
  note t = wrapped_lines_fit_and_reconstruct [OF h1 h2 h3 h4]
  have c: "msg_type bob_long = Chat \<and> ESC \<notin> set (name_text bob_long) \<and>
           ESC \<notin> set (msg_text bob_long)"
    by (simp add: bob_long_def name_text_def ESC_def)
  have u: "unwrap (bracketed bob_long) (formatMessageToLines 1 bob_long 40) =
             name_text bob_long @ '': '' @ msg_text bob_long"
    using t [THEN conjunct2, THEN conjunct2, rule_format, OF c] .
  have l: "list_all (\<lambda>l. int (length (stripAnsiCodes l)) \<le> 40) (formatMessageToLines 1 bob_long 40)"
    using arg_cong [OF bob_long_lines, of "list_all (\<lambda>p. int (length p) \<le> 40)"]
    by (simp add: list_all_iff)
  from h1 h2 h3 l u show ?thesis by (simp add: bob_long_def name_text_def)
qed

text \<open>
  C6 as stated fails, here at colour level 1: at width 20 the two words of ten letters each stand alone on a
  continuation line of 22 characters, the indent of 12 and the word, and neither word is
  longer than 20.
\<close>

theorem indented_word_overflows_counterexample:
  "length (formatMessageToLines 1 two_words 20) = 2 \<and>
   map (\<lambda>l. length (stripAnsiCodes l)) (formatMessageToLines 1 two_words 20) = [22, 22] \<and>
   map (\<lambda>l. words_of (stripAnsiCodes l)) (formatMessageToLines 1 two_words 20) =
     [[''aaaaaaaaaa''], [''bbbbbbbbbb'']] \<and>
   \<not> list_all (claimed_line_bound 20) (formatMessageToLines 1 two_words 20)"
  by code_simp

text \<open>
  Where the content has two spaces in a row, the test of the loop measures the line
  without the space the append then adds: at width 14 the first line of \<open>double_space\<close>
  has 15 characters and two words.
\<close>

lemma double_space_line:
  "map stripAnsiCodes (formatMessageToLines 1 double_space 14) =
     [''[10:00:00] a  b'', ''            c''] \<and>
   map (\<lambda>l. length (stripAnsiCodes l)) (formatMessageToLines 1 double_space 14) = [15, 13]"
  by code_simp

text \<open>
  At colour level 0 the styled timestamp is the bracketed time label itself, and the test
  that keeps the first line from being pushed when it holds the timestamp alone also
  drops a continuation line whose only word is that label: the record \<open>see_label\<close> at
  width 20 is wrapped into two lines, and the word \<open>[10:00:00]\<close> of its text is in
  neither.
\<close>

lemma label_word_dropped_without_colour:
  "formatMessageToLines 0 see_label 20 = [''[10:00:00] bob: see'', ''            now''] \<and>
   stripAnsiCodes (content 0 see_label) = ''bob: see [10:00:00] now''"
  by code_simp

end
